theory Spec2Isabelle
  imports Main "HOL-Library.Word" "HOL-Library.Char_ord" "HOL-Library.List_Lexorder"
    "HOL-Library.Sublist" "HOL-Library.Multiset"
begin

section \<open>The Oracle driver of kine: pkg/drivers/oracle/oracle.go\<close>

text \<open>
  The driver consists of a placeholder translator \<open>q\<close>, an error classifier
  \<open>TranslateErr\<close>, a schema installer \<open>setup\<close> called from the constructor \<open>New\<close>,
  and a set of SQL templates over the single table \<open>kine\<close>. The Go functions are
  embedded as HOL functions. The database handle is a parameter: a record of the two
  operations \<open>setup\<close> performs on it. The SQL templates are embedded by their relational
  meaning over a table given as a list of rows.
\<close>

subsection \<open>Errors\<close>

text \<open>
  A Go \<open>error\<close> is \<open>error option\<close>, \<open>None\<close> being \<open>nil\<close>. The constructors are the
  dynamic types the driver distinguishes: the sentinel \<open>sql.ErrNoRows\<close>, the sentinel
  \<open>server.ErrKeyExists\<close>, a \<open>*network.OracleError\<close> with its fields \<open>ErrCode\<close> and
  \<open>ErrMsg\<close>, and any error of another type. (An interface holding a nil
  \<open>*network.OracleError\<close>, on which the field access would panic, is none of them.)
\<close>

datatype error =
    ErrNoRows
  | ErrKeyExists
  | OracleError (ErrCode: int) (ErrMsg: string)
  | OtherError string

text \<open>
  \<open>dialect.TranslateErr\<close>: the type assertion \<open>err.(*network.OracleError)\<close> succeeds
  on the \<open>OracleError\<close> constructor only; the \<open>return err\<close> after the \<open>if\<close> returns
  the argument.
\<close>

definition TranslateErr :: "error option \<Rightarrow> error option" where
  "TranslateErr err =
     (case err of
        Some (OracleError code msg) \<Rightarrow> if code = 1 then Some ErrKeyExists else err
      | _ \<Rightarrow> err)"


subsection \<open>The placeholder translator \<open>q\<close>\<close>

text \<open>
  \<open>strconv.Itoa\<close> on the non-negative counter: the decimal digits, most significant
  first. The counter \<open>n\<close> of \<open>q\<close> is a Go \<open>int\<close>; it counts bytes of one string, whose
  length is below \<open>2 ^ 63\<close>, so it never wraps and is a \<open>nat\<close> here.
\<close>

definition digit_char :: "nat \<Rightarrow> char" where
  "digit_char d = ''0123456789'' ! d"

function Itoa :: "nat \<Rightarrow> string" where
  "Itoa n = (if n < 10 then [digit_char n] else Itoa (n div 10) @ [digit_char (n mod 10)])"
  by pat_completeness auto
termination
  by (relation "measure (\<lambda>n. n)") auto

declare Itoa.simps [simp del]

text \<open>
  \<open>regexp.MustCompile(`\?`).ReplaceAllStringFunc(sql, f)\<close> copies the bytes of \<open>sql\<close>
  and replaces each byte \<open>?\<close>, from left to right, by the result of \<open>f\<close>. The closure
  increments \<open>n\<close> and returns \<open>pref + strconv.Itoa(n)\<close> with \<open>pref = ":"\<close>. The first
  argument of \<open>q_from\<close> is the value of \<open>n\<close> before the next match.
\<close>

fun q_from :: "nat \<Rightarrow> string \<Rightarrow> string" where
  "q_from n [] = []"
| "q_from n (c # cs) =
     (if c = CHR ''?'' then (CHR '':'' # Itoa (Suc n)) @ q_from (Suc n) cs
      else c # q_from n cs)"

definition q :: "string \<Rightarrow> string" where
  "q sql = q_from 0 sql"

text \<open>
  Vocabulary for stating what \<open>q\<close> does: the number of generic markers of a template,
  the pieces of text between them, the text obtained by putting a list of markers between
  the pieces, the \<open>k\<close>-th numbered marker, and the number a marker carries.
\<close>

definition count_q :: "string \<Rightarrow> nat" where
  "count_q s = length (filter (\<lambda>c. c = CHR ''?'') s)"

fun pieces :: "string \<Rightarrow> string list" where
  "pieces [] = [[]]"
| "pieces (c # cs) =
     (if c = CHR ''?'' then [] # pieces cs
      else (c # hd (pieces cs)) # tl (pieces cs))"

fun weave :: "string list \<Rightarrow> string list \<Rightarrow> string" where
  "weave [] ms = []"
| "weave (p # ps) [] = p"
| "weave (p # ps) (m # ms) = p @ m @ weave ps ms"

definition marker :: "nat \<Rightarrow> string" where
  "marker k = CHR '':'' # Itoa k"

definition digit_val :: "char \<Rightarrow> nat" where
  "digit_val c = of_char c - 48"

definition Atoi :: "string \<Rightarrow> nat" where
  "Atoi s = foldl (\<lambda>a c. 10 * a + digit_val c) 0 s"

definition marker_number :: "string \<Rightarrow> nat" where
  "marker_number m = Atoi (tl m)"

definition markers_of :: "string \<Rightarrow> string list" where
  "markers_of s = map marker [1 ..< Suc (count_q s)]"


subsection \<open>The schema and its migrations\<close>

text \<open>
  The statements are Go raw string literals: the line breaks and the tabs of the source
  file are part of the first one.
\<close>

definition src_line :: "nat \<Rightarrow> string \<Rightarrow> string" where
  "src_line tabs text = CHR 0x0A # replicate tabs (CHR 0x09) @ text"

definition schema :: "string list" where
  "schema =
     [''CREATE TABLE kine''
        @ src_line 3 ''(''
        @ src_line 4 ''id INTEGER GENERATED BY DEFAULT AS IDENTITY,''
        @ src_line 4 ''name VARCHAR2(630),''
        @ src_line 4 ''created INTEGER,''
        @ src_line 4 ''deleted INTEGER,''
        @ src_line 4 ''create_revision INTEGER,''
        @ src_line 4 ''prev_revision INTEGER,''
        @ src_line 4 ''lease INTEGER,''
        @ src_line 4 ''value BLOB,''
        @ src_line 4 ''old_value BLOB,''
        @ src_line 4 ''CONSTRAINT kine_pk PRIMARY KEY (id)''
        @ src_line 3 '')'',
      ''CREATE INDEX kine_name_index ON kine (name)'',
      ''CREATE INDEX kine_name_id_index ON kine (name,id)'',
      ''CREATE INDEX kine_id_deleted_index ON kine (id,deleted)'',
      ''CREATE INDEX kine_prev_revision_index ON kine (prev_revision)'',
      ''CREATE UNIQUE INDEX kine_name_prev_revision_uindex ON kine (name, prev_revision)'']"

text \<open>The two migrations are empty strings (\<open>[]\<close> as a \<open>string\<close>).\<close>

definition schemaMigrations :: "string list" where
  "schemaMigrations = [[], []]"


subsection \<open>Reading the schema version\<close>

text \<open>
  \<open>os.Getenv\<close> returns the empty string for a variable that is not set.
\<close>

definition Getenv :: "string option \<Rightarrow> string" where
  "Getenv v = (case v of None \<Rightarrow> [] | Some x \<Rightarrow> x)"

text \<open>
  \<open>strconv.ParseUint(s, 10, 64)\<close> of the Go standard library, for base 10 and 64 bits:
  the empty string is a syntax error; each byte must be a decimal digit (a letter is a
  digit of value 10 or more, which base 10 refuses, and any other byte is refused: both
  return \<open>0\<close> and a syntax error); a value that does not fit returns the largest
  \<open>uint64\<close> and a range error. \<open>cutoff\<close> is the smallest number whose tenfold exceeds
  the largest \<open>uint64\<close>. The arithmetic is that of \<open>uint64\<close>.
\<close>

datatype num_error = ErrSyntax | ErrRange

definition maxUint64 :: "64 word" where
  "maxUint64 = 18446744073709551615"

definition cutoff :: "64 word" where
  "cutoff = maxUint64 div 10 + 1"

fun parse_digits :: "64 word \<Rightarrow> string \<Rightarrow> 64 word \<times> num_error option" where
  "parse_digits n [] = (n, None)"
| "parse_digits n (c # cs) =
     (if CHR ''0'' \<le> c \<and> c \<le> CHR ''9'' then
        (let d = (of_nat (of_char c - of_char CHR ''0'') :: 64 word) in
         if n \<ge> cutoff then (maxUint64, Some ErrRange)
         else (let n10 = n * 10; n1 = n10 + d in
               if n1 < n10 then (maxUint64, Some ErrRange)
               else parse_digits n1 cs))
      else (0, Some ErrSyntax))"

definition ParseUint :: "string \<Rightarrow> 64 word \<times> num_error option" where
  "ParseUint s = (if s = [] then (0, Some ErrSyntax) else parse_digits 0 s)"


subsection \<open>The schema installer \<open>setup\<close> and the constructor \<open>New\<close>\<close>

text \<open>
  The database behind \<open>*sql.DB\<close> is a state of an arbitrary type \<open>'s\<close> with the
  operations the installer calls on it:
  \<^item> \<open>table_exists_query\<close> is
    \<open>db.QueryRow("SELECT 1 FROM USER_TABLES WHERE table_name = :1", "KINE").Scan(&exists)\<close>:
    either a value was scanned into \<open>exists\<close>, or \<open>Scan\<close> returned an error
    (\<open>sql.ErrNoRows\<close> when the query has no row) and \<open>exists\<close> keeps its zero value;
  \<^item> \<open>db_exec\<close> is \<open>db.Exec(stmt)\<close>: its error, and the state it leaves;
  \<^item> \<open>Migrate\<close> is \<open>dialect.Migrate\<close> of the package \<open>generic\<close>, which \<open>New\<close> calls
    after \<open>setup\<close>.
\<close>

datatype scan_result = Scanned bool | ScanErr error

record 's backend =
  table_exists_query :: "'s \<Rightarrow> scan_result"
  db_exec :: "string \<Rightarrow> 's \<Rightarrow> error option \<times> 's"
  Migrate :: "'s \<Rightarrow> 's"

text \<open>
  What a run of \<open>setup\<close> does is recorded as a list of events, in the order of the run:
  the warning of line 147, each \<open>db.Exec\<close> of a schema statement with its result
  (traced as \<open>SETUP EXEC\<close>), and each \<open>db.Exec\<close> of a migration statement with its index
  and its result (traced as \<open>SETUP EXEC MIGRATION\<close>).
\<close>

datatype event =
    Warnf error
  | SetupExec string "error option"
  | SetupExecMigration nat string "error option"

text \<open>The loop over \<open>schema\<close>: the first failing statement returns its error.\<close>

fun exec_schema :: "'s backend \<Rightarrow> string list \<Rightarrow> 's \<Rightarrow> error option \<times> 's \<times> event list" where
  "exec_schema B [] db = (None, db, [])"
| "exec_schema B (stmt # rest) db =
     (case db_exec B stmt db of
        (Some err, db') \<Rightarrow> (Some err, db', [SetupExec stmt (Some err)])
      | (None, db') \<Rightarrow>
          (case exec_schema B rest db' of
             (r, db'', evs) \<Rightarrow> (r, db'', SetupExec stmt None # evs)))"

text \<open>
  The loop over \<open>schemaMigrations\<close>, from index \<open>i\<close> on. \<open>v\<close> is \<open>int(schemaVersion)\<close>,
  the \<open>uint64\<close> read as a 64-bit signed integer (the \<open>int\<close> of a 64-bit platform).
\<close>

fun run_migrations ::
  "'s backend \<Rightarrow> int \<Rightarrow> nat \<Rightarrow> string list \<Rightarrow> 's \<Rightarrow> error option \<times> 's \<times> event list" where
  "run_migrations B v i [] db = (None, db, [])"
| "run_migrations B v i (stmt # rest) db =
     (if int i \<ge> v then (None, db, [])
      else if stmt = [] then run_migrations B v (Suc i) rest db
      else (case db_exec B stmt db of
              (Some err, db') \<Rightarrow> (Some err, db', [SetupExecMigration i stmt (Some err)])
            | (None, db') \<Rightarrow>
                (case run_migrations B v (Suc i) rest db' of
                   (r, db'', evs) \<Rightarrow> (r, db'', SetupExecMigration i stmt None # evs))))"

text \<open>
  \<open>setup\<close>, named \<open>setup_db\<close> here. The second argument is the environment variable \<open>KINE_SCHEMA_MIGRATION\<close>
  (\<open>None\<close> when it is not set); the error of \<open>ParseUint\<close> is dropped, its value kept.
  The result is the returned error, the state of the database and the events of the run.
\<close>

definition setup_db :: "'s backend \<Rightarrow> string option \<Rightarrow> 's \<Rightarrow> error option \<times> 's \<times> event list" where
  "setup_db B env db =
     (let scan = table_exists_query B db;
          exists = (case scan of Scanned b \<Rightarrow> b | ScanErr err \<Rightarrow> False);
          warn = (case scan of
                    ScanErr err \<Rightarrow> if err \<noteq> ErrNoRows then [Warnf err] else []
                  | Scanned b \<Rightarrow> [])
      in case (if \<not> exists then exec_schema B schema db else (None, db, [])) of
           (Some err, db1, evs1) \<Rightarrow> (Some err, db1, warn @ evs1)
         | (None, db1, evs1) \<Rightarrow>
             (let schemaVersion = fst (ParseUint (Getenv env)) in
              case run_migrations B (sint schemaVersion) 0 schemaMigrations db1 of
                (r, db2, evs2) \<Rightarrow> (r, db2, warn @ evs1 @ evs2)))"

text \<open>
  \<open>New\<close>, as far as the installer is concerned. \<open>opened\<close> is the result of
  \<open>generic.Open\<close>: an error, or the database. The result is the \<open>bool\<close>, the backend
  (the database it is built on, \<open>None\<close> for \<open>nil\<close>) and the error that \<open>New\<close> returns,
  with the events of \<open>setup\<close>.
\<close>

definition New ::
  "'s backend \<Rightarrow> string option \<Rightarrow> error + 's \<Rightarrow> bool \<times> 's option \<times> error option \<times> event list" where
  "New B env opened =
     (case opened of
        Inl err \<Rightarrow> (False, None, Some err, [])
      | Inr db \<Rightarrow>
          (case setup_db B env db of
             (Some err, db', evs) \<Rightarrow> (False, None, Some err, evs)
           | (None, db', evs) \<Rightarrow> (True, Some (Migrate B db'), None, evs)))"

text \<open>The \<open>db.Exec\<close> calls of a run, and those of them that are migrations.\<close>

fun exec_calls :: "event list \<Rightarrow> (string \<times> error option) list" where
  "exec_calls [] = []"
| "exec_calls (Warnf err # evs) = exec_calls evs"
| "exec_calls (SetupExec stmt r # evs) = (stmt, r) # exec_calls evs"
| "exec_calls (SetupExecMigration i stmt r # evs) = (stmt, r) # exec_calls evs"

fun migration_calls :: "event list \<Rightarrow> (nat \<times> string) list" where
  "migration_calls [] = []"
| "migration_calls (SetupExecMigration i stmt r # evs) = (i, stmt) # migration_calls evs"
| "migration_calls (ev # evs) = migration_calls evs"

text \<open>
  A database for running the installer on examples: its state is the list of the
  statements it has executed. A statement in \<open>broken\<close> fails; a statement executed before
  fails with ORA-00955 (the name is taken); the existence query fails with \<open>fault\<close> when
  one is given, and otherwise finds the table once its \<open>CREATE TABLE\<close> has been executed.
\<close>

definition catalog_backend :: "error option \<Rightarrow> string list \<Rightarrow> string list backend" where
  "catalog_backend fault broken =
     \<lparr>table_exists_query = (\<lambda>db.
        case fault of
          Some err \<Rightarrow> ScanErr err
        | None \<Rightarrow> if hd schema \<in> set db then Scanned True else ScanErr ErrNoRows),
      db_exec = (\<lambda>stmt db.
        if stmt \<in> set broken then (Some (OtherError ''connection lost''), db)
        else if stmt \<in> set db
          then (Some (OracleError 955 ''name is already used by an existing object''), db)
        else (None, db @ [stmt])),
      Migrate = (\<lambda>db. db)\<rparr>"

text \<open>A database on which the table exists and every statement succeeds.\<close>

definition accepting_backend :: "string list backend" where
  "accepting_backend =
     \<lparr>table_exists_query = (\<lambda>db. Scanned True),
      db_exec = (\<lambda>stmt db. (None, db @ [stmt])),
      Migrate = (\<lambda>db. db)\<rparr>"


subsection \<open>The table and the query templates\<close>

text \<open>
  One row of the table \<open>kine\<close> created by \<open>schema\<close>. \<open>id\<close> is the primary key and is
  never NULL; every other column may be NULL (\<open>None\<close>). A \<open>VARCHAR2\<close> value is a
  \<open>string\<close>, and the empty string is Oracle's NULL. The fields carry the alias \<open>kv\<close>
  that the templates give the table.
\<close>

record kine_row =
  kv_id :: int
  kv_name :: string
  kv_created :: "int option"
  kv_deleted :: "int option"
  kv_create_revision :: "int option"
  kv_prev_revision :: "int option"
  kv_lease :: "int option"
  kv_value :: "string option"
  kv_old_value :: "string option"

type_synonym kine = "kine_row list"

text \<open>
  A row of a result: the two scalar subqueries \<open>(revSQL)\<close> and \<open>(compactRevSQL)\<close>,
  then the nine columns of \<open>columns\<close>, which are those of the row \<open>kv\<close> (\<open>kv.id\<close> and
  \<open>kv.name\<close> under the aliases \<open>theid\<close> and \<open>thename\<close>).
\<close>

record list_row =
  current_rev :: "int option"
  compact_rev :: "int option"
  kv :: kine_row

definition theid :: "list_row \<Rightarrow> int" where
  "theid l = kv_id (kv l)"

definition thename :: "list_row \<Rightarrow> string" where
  "thename l = kv_name (kv l)"

text \<open>
  SQL \<open>MAX\<close> skips NULL and is NULL over no value. A condition selects a row when it
  is true, and a comparison with NULL is not true; the conditions of the templates combine
  comparisons with \<open>AND\<close> and \<open>OR\<close> only, so a comparison with NULL counts as false.
  \<open>LIKE\<close> has no \<open>ESCAPE\<close> clause: \<open>%\<close> matches any run of characters and \<open>_\<close> any
  one character. Strings compare byte by byte. \<open>NVL(a, b)\<close> is \<open>b\<close> when \<open>a\<close> is NULL.
\<close>

fun sql_max :: "int option list \<Rightarrow> int option" where
  "sql_max [] = None"
| "sql_max (None # xs) = sql_max xs"
| "sql_max (Some x # xs) = (case sql_max xs of None \<Rightarrow> Some x | Some m \<Rightarrow> Some (max x m))"

fun like_match :: "string \<Rightarrow> string \<Rightarrow> bool" where
  "like_match [] s = (s = [])"
| "like_match (p # ps) [] = (p = CHR ''%'' \<and> like_match ps [])"
| "like_match (p # ps) (c # cs) =
     (if p = CHR ''%'' then like_match ps (c # cs) \<or> like_match (p # ps) cs
      else (p = CHR ''_'' \<or> p = c) \<and> like_match ps cs)"

definition sql_like :: "string \<Rightarrow> string \<Rightarrow> bool" where
  "sql_like s pat = (s \<noteq> [] \<and> pat \<noteq> [] \<and> like_match pat s)"

definition sql_gt :: "string \<Rightarrow> string \<Rightarrow> bool" where
  "sql_gt a b = (a \<noteq> [] \<and> b \<noteq> [] \<and> b < a)"

definition NVL :: "string \<Rightarrow> string \<Rightarrow> string" where
  "NVL a b = (if a = [] then b else a)"

definition CHR1 :: string where
  "CHR1 = [CHR 0x01]"

text \<open>\<open>revSQL\<close> and \<open>compactRevSQL\<close>.\<close>

definition revSQL :: "kine \<Rightarrow> int option" where
  "revSQL tbl = sql_max (map (\<lambda>rkv. Some (kv_id rkv)) tbl)"

definition compactRevSQL :: "kine \<Rightarrow> int option" where
  "compactRevSQL tbl =
     sql_max (map kv_prev_revision (filter (\<lambda>crkv. kv_name crkv = ''compact_rev_key'') tbl))"

text \<open>
  \<open>listSQL\<close>. The first argument is the condition that \<open>fmt.Sprintf\<close> puts in place of
  \<open>%s\<close>. \<open>maxkv\<close> is the inner query: the rows \<open>mkv\<close> whose name is \<open>LIKE\<close> the pattern
  and that satisfy the condition, grouped by name, with \<open>MAX(mkv.id)\<close> of each group. The
  join keeps a row \<open>kv\<close> once for each row of \<open>maxkv\<close> with \<open>maxkv.id = kv.id\<close>; the
  \<open>WHERE\<close> keeps those with \<open>kv.deleted = 0 OR kv.deleted = ?\<close>; the outer query orders
  by \<open>thename\<close>.
\<close>

definition maxkv :: "(kine_row \<Rightarrow> bool) \<Rightarrow> kine \<Rightarrow> string \<Rightarrow> int option list" where
  "maxkv cond tbl pat =
     (let matching = filter (\<lambda>mkv. sql_like (kv_name mkv) pat \<and> cond mkv) tbl
      in map (\<lambda>n. sql_max (map (\<lambda>mkv. Some (kv_id mkv))
                              (filter (\<lambda>mkv. kv_name mkv = n) matching)))
           (remdups (map kv_name matching)))"

definition deleted_ok :: "int \<Rightarrow> kine_row \<Rightarrow> bool" where
  "deleted_ok del r = (kv_deleted r = Some 0 \<or> kv_deleted r = Some del)"

definition listSQL :: "(kine_row \<Rightarrow> bool) \<Rightarrow> kine \<Rightarrow> string \<Rightarrow> int \<Rightarrow> list_row list" where
  "listSQL cond tbl pat del =
     (let joined = concat (map (\<lambda>r. map (\<lambda>m. r)
                      (filter (\<lambda>m. m = Some (kv_id r)) (maxkv cond tbl pat))) tbl);
          lkv = map (\<lambda>r. \<lparr>current_rev = revSQL tbl, compact_rev = compactRevSQL tbl, kv = r\<rparr>)
                  (filter (deleted_ok del) joined)
      in sort_key thename lkv)"

text \<open>
  The templates of \<open>New\<close>, with their parameters in the order of the markers that \<open>q\<close>
  numbers: \<open>GetCurrentSQL\<close> (pattern, start key, deleted flag) with the condition
  \<open>mkv.name > NVL(?, CHR(1))\<close>; \<open>ListRevisionStartSQL\<close> (pattern, revision, deleted
  flag) with the condition \<open>mkv.id <= ?\<close>; \<open>AfterSQL\<close> (pattern, revision), which
  selects from \<open>kine\<close> directly and orders by \<open>kv.id\<close>.
\<close>

definition GetCurrentSQL :: "kine \<Rightarrow> string \<Rightarrow> string \<Rightarrow> int \<Rightarrow> list_row list" where
  "GetCurrentSQL tbl pat start del =
     listSQL (\<lambda>mkv. sql_gt (kv_name mkv) (NVL start CHR1)) tbl pat del"

definition ListRevisionStartSQL :: "kine \<Rightarrow> string \<Rightarrow> int \<Rightarrow> int \<Rightarrow> list_row list" where
  "ListRevisionStartSQL tbl pat revision del =
     listSQL (\<lambda>mkv. kv_id mkv \<le> revision) tbl pat del"

definition AfterSQL :: "kine \<Rightarrow> string \<Rightarrow> int \<Rightarrow> list_row list" where
  "AfterSQL tbl pat revision =
     sort_key theid
       (map (\<lambda>r. \<lparr>current_rev = revSQL tbl, compact_rev = compactRevSQL tbl, kv = r\<rparr>)
          (filter (\<lambda>r. sql_like (kv_name r) pat \<and> kv_id r > revision) tbl))"

text \<open>
  Rows for examples: a row with the given id, name, deleted flag and previous revision,
  and a table of four writes to the keys \<open>a\<close> and \<open>b\<close>, the last one deleting \<open>a\<close>.
\<close>

definition row :: "int \<Rightarrow> string \<Rightarrow> int \<Rightarrow> int \<Rightarrow> kine_row" where
  "row i n d p =
     \<lparr>kv_id = i, kv_name = n, kv_created = Some 0, kv_deleted = Some d,
      kv_create_revision = Some 0, kv_prev_revision = Some p, kv_lease = Some 0,
      kv_value = None, kv_old_value = None\<rparr>"

definition example_kine :: kine where
  "example_kine = [row 1 ''b'' 0 0, row 2 ''a'' 0 0, row 3 ''b'' 0 1, row 4 ''a'' 1 2]"


text \<open>
  Vocabulary for the properties of the list queries: the condition of the inner query of
  \<open>listSQL\<close> on a row; the table as it was when its largest
  id was at most \<open>revision\<close> (rows are only ever added, with larger ids); a row that is
  the latest of its name, deleted or not; and the current-state list as the specification
  words it: for each name matching the pattern, the row of largest id among the rows of
  this name that are not deleted (or have the requested deleted state), ordered by name.
\<close>

definition cand :: "(kine_row \<Rightarrow> bool) \<Rightarrow> string \<Rightarrow> kine_row \<Rightarrow> bool" where
  "cand cond pat r = (sql_like (kv_name r) pat \<and> cond r)"

definition as_of :: "int \<Rightarrow> kine \<Rightarrow> kine" where
  "as_of revision tbl = filter (\<lambda>r. kv_id r \<le> revision) tbl"

definition latest :: "kine \<Rightarrow> kine_row \<Rightarrow> bool" where
  "latest tbl r = list_all (\<lambda>r'. kv_name r' = kv_name r \<longrightarrow> kv_id r' \<le> kv_id r) tbl"

definition latest_live_list :: "kine \<Rightarrow> string \<Rightarrow> int \<Rightarrow> kine_row list" where
  "latest_live_list tbl pat del =
     (let live = filter (\<lambda>r. sql_like (kv_name r) pat \<and> deleted_ok del r) tbl
      in sort_key kv_name (filter (latest live) live))"

text \<open>
  Three small tables: a key written and then deleted; a key written twice; a key whose
  name is the single character \<open>CHR(1)\<close>.
\<close>

definition written_then_deleted :: kine where
  "written_then_deleted = [row 1 ''a'' 0 0, row 2 ''a'' 1 1]"

definition written_twice :: kine where
  "written_twice = [row 1 ''a'' 0 0, row 2 ''a'' 0 1]"

definition lowest_name :: kine where
  "lowest_name = [row 1 CHR1 0 0]"


section \<open>The placeholder translator\<close>

lemma digit_cases:
  "d < 10 \<Longrightarrow>
   d = 0 \<or> d = 1 \<or> d = 2 \<or> d = 3 \<or> d = 4 \<or> d = 5 \<or> d = 6 \<or> d = 7 \<or> d = 8 \<or> d = (9::nat)"
  by arith

lemma digit_val_digit_char: "d < 10 \<Longrightarrow> digit_val (digit_char d) = d"
  using digit_cases [of d] by (auto simp: digit_val_def digit_char_def)

lemma digit_char_not_q: "d < 10 \<Longrightarrow> digit_char d \<noteq> CHR ''?''"
  using digit_cases [of d] by (auto simp: digit_char_def)

lemma Atoi_snoc: "Atoi (s @ [c]) = 10 * Atoi s + digit_val c"
  by (simp add: Atoi_def)

lemma Atoi_Itoa: "Atoi (Itoa n) = n"
proof (induction n rule: Itoa.induct)
  case (1 n)
  show ?case
  proof (cases "n < 10")
    case True
    then show ?thesis
      by (subst Itoa.simps) (simp add: Atoi_def digit_val_digit_char)
  next
    case False
    with 1 have "Atoi (Itoa (n div 10)) = n div 10" by simp
    with False show ?thesis
      by (subst Itoa.simps) (simp add: Atoi_snoc digit_val_digit_char)
  qed
qed

lemma Itoa_no_q: "CHR ''?'' \<notin> set (Itoa n)"
proof (induction n rule: Itoa.induct)
  case (1 n)
  show ?case
  proof (cases "n < 10")
    case True
    then show ?thesis
      using digit_char_not_q [of n] by (subst Itoa.simps) auto
  next
    case False
    with 1 have "CHR ''?'' \<notin> set (Itoa (n div 10))" by simp
    moreover have "digit_char (n mod 10) \<noteq> CHR ''?''"
      by (rule digit_char_not_q) simp
    ultimately show ?thesis using False
      by (subst Itoa.simps) auto
  qed
qed

lemma marker_number_marker: "marker_number (marker k) = k"
  by (simp add: marker_number_def marker_def Atoi_Itoa)

lemma inj_marker: "inj marker"
  by (rule inj_on_inverseI [where g = marker_number]) (rule marker_number_marker)

lemma pieces_nonempty: "pieces s \<noteq> []"
  by (induction s) auto

lemma length_pieces: "length (pieces s) = Suc (count_q s)"
  by (induction s) (auto simp: count_q_def pieces_nonempty)

lemma pieces_no_q: "CHR ''?'' \<notin> set (concat (pieces s))"
proof (induction s)
  case Nil
  then show ?case by simp
next
  case (Cons c cs)
  obtain p ps where ps: "pieces cs = p # ps"
    using pieces_nonempty [of cs] by (cases "pieces cs") auto
  with Cons show ?case by auto
qed

lemma weave_Cons_head: "weave ((c # p) # ps) ms = c # weave (p # ps) ms"
  by (cases ms) auto

lemma weave_pieces_step:
  "c \<noteq> CHR ''?'' \<Longrightarrow> weave (pieces (c # cs)) ms = c # weave (pieces cs) ms"
proof -
  assume c: "c \<noteq> CHR ''?''"
  obtain p ps where ps: "pieces cs = p # ps"
    using pieces_nonempty [of cs] by (cases "pieces cs") auto
  with c show ?thesis by (simp add: weave_Cons_head)
qed

lemma q_from_weave:
  "q_from n s = weave (pieces s) (map marker [Suc n ..< Suc n + count_q s])"
proof (induction s arbitrary: n)
  case Nil
  then show ?case by (simp add: count_q_def)
next
  case (Cons c cs)
  show ?case
  proof (cases "c = CHR ''?''")
    case True
    then have "count_q (c # cs) = Suc (count_q cs)" by (simp add: count_q_def)
    then have "[Suc n ..< Suc n + count_q (c # cs)]
        = Suc n # [Suc (Suc n) ..< Suc (Suc n) + count_q cs]"
      by (simp add: upt_conv_Cons)
    with True Cons [of "Suc n"] show ?thesis
      by (simp add: marker_def)
  next
    case False
    then have "count_q (c # cs) = count_q cs" by (simp add: count_q_def)
    with False Cons [of n] show ?thesis
      by (simp add: weave_pieces_step del: pieces.simps)
  qed
qed

lemma weave_pieces_id: "weave (pieces s) (replicate (count_q s) ''?'') = s"
proof (induction s)
  case Nil
  then show ?case by (simp add: count_q_def)
next
  case (Cons c cs)
  show ?case
  proof (cases "c = CHR ''?''")
    case True
    then have "count_q (c # cs) = Suc (count_q cs)" by (simp add: count_q_def)
    with True Cons show ?thesis by simp
  next
    case False
    then have "count_q (c # cs) = count_q cs" by (simp add: count_q_def)
    with False Cons show ?thesis
      by (simp add: weave_pieces_step del: pieces.simps)
  qed
qed

lemma q_from_no_q: "CHR ''?'' \<notin> set (q_from n s)"
  by (induction s arbitrary: n) (auto simp: Itoa_no_q)

lemma q_from_fixed: "CHR ''?'' \<notin> set s \<Longrightarrow> q_from n s = s"
  by (induction s arbitrary: n) auto

text \<open>
  C2. A template is its pieces with one \<open>?\<close> between each two neighbours; \<open>q\<close> returns
  the same pieces, unchanged and in the same order, with the markers \<open>:1\<close>, \<open>:2\<close>, ...,
  \<open>:k\<close> between them, \<open>k\<close> being the number of \<open>?\<close> in the template. So the \<open>N\<close>-th
  \<open>?\<close> becomes \<open>:N\<close>, the markers produced are as many as the \<open>?\<close>, their numbers are
  \<open>1, 2, ..., k\<close> from left to right (strictly increasing), and no two of them are equal.
\<close>

theorem q_numbers_markers_left_to_right:
  "q s = weave (pieces s) (markers_of s)
   \<and> s = weave (pieces s) (replicate (count_q s) ''?'')
   \<and> CHR ''?'' \<notin> set (concat (pieces s))
   \<and> length (pieces s) = Suc (count_q s)
   \<and> length (markers_of s) = count_q s
   \<and> map marker_number (markers_of s) = [1 ..< Suc (count_q s)]
   \<and> sorted_wrt (<) (map marker_number (markers_of s))
   \<and> distinct (markers_of s)"
proof -
  have "q s = weave (pieces s) (markers_of s)"
    using q_from_weave [of 0 s] by (simp add: q_def markers_of_def)
  moreover have nums: "map marker_number (markers_of s) = [1 ..< Suc (count_q s)]"
    by (simp add: markers_of_def comp_def marker_number_marker cong: map_cong)
  moreover have "sorted_wrt (<) (map marker_number (markers_of s))"
    unfolding nums by (simp only: sorted_wrt_upt)
  moreover have "distinct (markers_of s)"
    unfolding markers_of_def by (simp add: distinct_map inj_marker [THEN inj_on_subset])
  moreover have "length (markers_of s) = count_q s"
    by (simp add: markers_of_def)
  ultimately show ?thesis
    using weave_pieces_id [of s] pieces_no_q [of s] length_pieces [of s] by simp
qed

text \<open>
  C10. The result of \<open>q\<close> contains no \<open>?\<close>, and \<open>q\<close> applied to it returns it unchanged.
\<close>

theorem q_idempotent: "CHR ''?'' \<notin> set (q s) \<and> q (q s) = q s"
  by (simp add: q_def q_from_no_q q_from_fixed)


section \<open>The error classifier\<close>

text \<open>
  C5. An Oracle error with code 1 (ORA-00001, unique constraint violated) is classified
  as \<open>ErrKeyExists\<close>; every other error value, \<open>nil\<close> included, is returned as it is.
\<close>

theorem TranslateErr_classifies:
  "TranslateErr (Some (OracleError 1 msg)) = Some ErrKeyExists
   \<and> ((\<forall>m. err \<noteq> Some (OracleError 1 m)) \<longrightarrow> TranslateErr err = err)"
  by (auto simp: TranslateErr_def split: option.splits error.splits)


theorem TranslateErr_classifies_witness:
  "TranslateErr (Some (OracleError 1 ''unique constraint violated'')) = Some ErrKeyExists
   \<and> TranslateErr (Some (OracleError 942 ''table or view does not exist''))
       = Some (OracleError 942 ''table or view does not exist'')
   \<and> TranslateErr (Some ErrNoRows) = Some ErrNoRows
   \<and> TranslateErr None = None"
  using TranslateErr_classifies [of "''unique constraint violated''"
      "Some (OracleError 942 ''table or view does not exist'')"]
    TranslateErr_classifies [of "''x''" "Some ErrNoRows"]
    TranslateErr_classifies [of "''x''" None]
  by simp


section \<open>The schema installer\<close>

lemma run_migrations_schemaMigrations:
  "run_migrations B v i schemaMigrations db = (None, db, [])"
  by (simp add: schemaMigrations_def)

lemma setup_db_unfold:
  "setup_db B env db =
     (case (if (case table_exists_query B db of Scanned b \<Rightarrow> b | ScanErr err \<Rightarrow> False)
            then (None, db, []) else exec_schema B schema db) of
        (r, db1, evs1) \<Rightarrow>
          (r, db1,
           (case table_exists_query B db of
              ScanErr err \<Rightarrow> if err \<noteq> ErrNoRows then [Warnf err] else []
            | Scanned b \<Rightarrow> []) @ evs1))"
  by (auto simp: setup_db_def Let_def run_migrations_schemaMigrations
      split: prod.splits option.splits scan_result.splits)

lemma exec_schema_no_migration:
  "exec_schema B stmts db = (r, db', evs) \<Longrightarrow> migration_calls evs = []"
  by (induction stmts arbitrary: db r db' evs) (auto split: prod.splits option.splits)

lemma exec_schema_prefix:
  "exec_schema B stmts db = (r, db', evs) \<Longrightarrow> prefix (map fst (exec_calls evs)) stmts"
  by (induction stmts arbitrary: db r db' evs) (auto split: prod.splits option.splits)

lemma exec_schema_failure_last:
  "exec_schema B stmts db = (r, db', evs) \<Longrightarrow> i < length (exec_calls evs) \<Longrightarrow>
   snd (exec_calls evs ! i) = Some err \<Longrightarrow>
   Suc i = length (exec_calls evs) \<and> r = Some err
   \<and> (\<exists>d. db_exec B (fst (exec_calls evs ! i)) d = (Some err, db'))"
proof (induction stmts arbitrary: db i evs)
  case Nil
  then show ?case by simp
next
  case (Cons stmt rest)
  obtain r1 d1 where ex: "db_exec B stmt db = (r1, d1)" by (cases "db_exec B stmt db")
  show ?case
  proof (cases r1)
    case (Some e1)
    with ex Cons.prems show ?thesis by auto
  next
    case None
    obtain r2 d2 evs2 where rest: "exec_schema B rest d1 = (r2, d2, evs2)"
      by (cases "exec_schema B rest d1")
    with ex None Cons.prems have evs: "evs = SetupExec stmt None # evs2" and r: "r2 = r" and d: "d2 = db'"
      by auto
    from Cons.prems evs obtain j where j: "i = Suc j"
      by (cases i) auto
    with Cons.prems evs have "j < length (exec_calls evs2)" "snd (exec_calls evs2 ! j) = Some err"
      by auto
    from Cons.IH [OF rest [unfolded r d] this]
    obtain d where "Suc j = length (exec_calls evs2)" "r = Some err"
      "db_exec B (fst (exec_calls evs2 ! j)) d = (Some err, db')"
      by blast
    moreover have "exec_calls evs ! i = exec_calls evs2 ! j"
      using j evs by simp
    moreover have "length (exec_calls evs) = Suc (length (exec_calls evs2))"
      using evs by simp
    ultimately show ?thesis using j by metis
  qed
qed

lemma distinct_schema: "distinct schema"
  by (simp add: schema_def src_line_def)

lemma exec_calls_append: "exec_calls (xs @ ys) = exec_calls xs @ exec_calls ys"
  by (induction xs rule: exec_calls.induct) auto

lemma migration_calls_append: "migration_calls (xs @ ys) = migration_calls xs @ migration_calls ys"
  by (induction xs rule: migration_calls.induct) auto

lemma setup_db_calls:
  "setup_db B env db = (r, db', evs) \<Longrightarrow>
   (\<exists>evs0. (if (case table_exists_query B db of Scanned b \<Rightarrow> b | ScanErr err \<Rightarrow> False)
            then (None, db, []) else exec_schema B schema db) = (r, db', evs0)
     \<and> exec_calls evs = exec_calls evs0 \<and> migration_calls evs = migration_calls evs0)"
  by (auto simp: setup_db_unfold exec_calls_append migration_calls_append
      split: prod.splits scan_result.splits if_splits)

lemma distinct_prefix: "prefix xs ys \<Longrightarrow> distinct ys \<Longrightarrow> distinct xs"
  by (auto simp: prefix_def)


text \<open>
  The loop over the migrations, for any list of migrations: when every statement succeeds
  and \<open>int(schemaVersion)\<close> is not negative, the statements executed are the entries
  below the version that are not empty, in order. (A version of \<open>2 ^ 63\<close> or more is
  negative as an \<open>int\<close> and stops the loop at once.)
\<close>

lemma run_migrations_below_version:
  assumes ok: "\<forall>stmt d. fst (db_exec B stmt d) = None" and v: "0 \<le> v"
  shows "run_migrations B v i migs db = (r, db', evs) \<Longrightarrow>
         migration_calls evs
         = filter (\<lambda>(k, stmt). stmt \<noteq> []) (take (nat v - i) (enumerate i migs))"
proof (induction migs arbitrary: i db r db' evs)
  case Nil
  then show ?case by simp
next
  case (Cons stmt rest)
  show ?case
  proof (cases "int i \<ge> v")
    case True
    then have "nat v - i = 0" by simp
    with True Cons.prems show ?thesis by simp
  next
    case False
    then have step: "nat v - i = Suc (nat v - Suc i)" using v by linarith
    obtain r1 d1 where ex: "db_exec B stmt db = (r1, d1)" by (cases "db_exec B stmt db")
    with ok have r1: "r1 = None" by (metis fst_conv)
    show ?thesis
    proof (cases "stmt = []")
      case True
      with False Cons.prems have "run_migrations B v (Suc i) rest db = (r, db', evs)" by simp
      from Cons.IH [OF this] True step show ?thesis by simp
    next
      case nonempty: False
      obtain r2 d2 evs2 where rest: "run_migrations B v (Suc i) rest d1 = (r2, d2, evs2)"
        by (cases "run_migrations B v (Suc i) rest d1")
      with False nonempty ex r1 Cons.prems have "evs = SetupExecMigration i stmt None # evs2"
        by auto
      with Cons.IH [OF rest] nonempty step show ?thesis by simp
    qed
  qed
qed

text \<open>
  The loop over the migrations stops at its first failing statement too, for any list of
  migrations.
\<close>

lemma run_migrations_failure_last:
  "run_migrations B v i migs db = (r, db', evs) \<Longrightarrow> k < length (exec_calls evs) \<Longrightarrow>
   snd (exec_calls evs ! k) = Some err \<Longrightarrow>
   Suc k = length (exec_calls evs) \<and> r = Some err"
proof (induction migs arbitrary: i db k evs)
  case Nil
  then show ?case by simp
next
  case (Cons stmt rest)
  show ?case
  proof (cases "int i \<ge> v \<or> stmt = []")
    case True
    with Cons.prems Cons.IH [of "Suc i" db evs k] show ?thesis
      by (auto split: if_splits)
  next
    case False
    obtain r1 d1 where ex: "db_exec B stmt db = (r1, d1)" by (cases "db_exec B stmt db")
    show ?thesis
    proof (cases r1)
      case (Some e1)
      with ex False Cons.prems show ?thesis by auto
    next
      case None
      obtain r2 d2 evs2 where rest: "run_migrations B v (Suc i) rest d1 = (r2, d2, evs2)"
        by (cases "run_migrations B v (Suc i) rest d1")
      with ex None False Cons.prems
      have evs: "evs = SetupExecMigration i stmt None # evs2" and r: "r2 = r" and d: "d2 = db'"
        by auto
      from Cons.prems evs obtain j where j: "k = Suc j"
        by (cases k) auto
      with Cons.prems evs have "j < length (exec_calls evs2)"
        "snd (exec_calls evs2 ! j) = Some err"
        by auto
      from Cons.IH [OF rest [unfolded r d] this] j evs show ?thesis by simp
    qed
  qed
qed

lemma catalog_exec_fresh:
  "distinct stmts \<Longrightarrow> set stmts \<inter> set db = {} \<Longrightarrow> set stmts \<inter> set broken = {} \<Longrightarrow>
   exec_schema (catalog_backend fault broken) stmts db
     = (None, db @ stmts, map (\<lambda>stmt. SetupExec stmt None) stmts)"
proof (induction stmts arbitrary: db)
  case Nil
  then show ?case by simp
next
  case (Cons stmt rest)
  from Cons.prems have step:
    "db_exec (catalog_backend fault broken) stmt db = (None, db @ [stmt])"
    by (simp add: catalog_backend_def)
  from Cons.prems have "distinct rest" "set rest \<inter> set (db @ [stmt]) = {}"
    "set rest \<inter> set broken = {}"
    by auto
  from Cons.IH [OF this] step show ?case by simp
qed

lemma catalog_exec_taken:
  "stmt \<in> set db \<Longrightarrow> stmt \<notin> set broken \<Longrightarrow>
   exec_schema (catalog_backend fault broken) (stmt # rest) db
     = (Some (OracleError 955 ''name is already used by an existing object''), db,
        [SetupExec stmt (Some (OracleError 955 ''name is already used by an existing object''))])"
  by (simp add: catalog_backend_def)

lemma catalog_exec_broken:
  "distinct (pre @ [x]) \<Longrightarrow> set pre \<inter> set db = {} \<Longrightarrow>
   exec_schema (catalog_backend fault [x]) (pre @ x # post) db
     = (Some (OtherError ''connection lost''), db @ pre,
        map (\<lambda>stmt. SetupExec stmt None) pre
          @ [SetupExec x (Some (OtherError ''connection lost''))])"
proof (induction pre arbitrary: db)
  case Nil
  then show ?case by (simp add: catalog_backend_def)
next
  case (Cons stmt rest)
  from Cons.prems have step:
    "db_exec (catalog_backend fault [x]) stmt db = (None, db @ [stmt])"
    by (simp add: catalog_backend_def)
  from Cons.prems have "distinct (rest @ [x])" "set rest \<inter> set (db @ [stmt]) = {}"
    by auto
  from Cons.IH [OF this] step show ?case by simp
qed

text \<open>
  On a database where the existence query finds the table, the installer executes no
  statement, neither of the schema nor of the migrations, leaves the database as it is,
  logs no warning and returns no error, whatever the schema version.
\<close>

lemma setup_db_noop_when_table_exists:
  "table_exists_query B db = Scanned True \<Longrightarrow> setup_db B env db = (None, db, [])"
  by (simp add: setup_db_unfold)

lemma exec_schema_keeps_table:
  assumes kept: "\<And>stmt d d'. stmt \<in> set stmts \<Longrightarrow> table_exists_query B d = Scanned True \<Longrightarrow>
      db_exec B stmt d = (None, d') \<Longrightarrow> table_exists_query B d' = Scanned True"
  shows "set todo \<subseteq> set stmts \<Longrightarrow> table_exists_query B db = Scanned True \<Longrightarrow>
     exec_schema B todo db = (None, db1, evs) \<Longrightarrow> table_exists_query B db1 = Scanned True"
proof (induction todo arbitrary: db evs)
  case Nil
  then show ?case by simp
next
  case (Cons stmt rest)
  obtain r1 d1 where ex: "db_exec B stmt db = (r1, d1)" by (cases "db_exec B stmt db")
  obtain r2 d2 evs2 where run: "exec_schema B rest d1 = (r2, d2, evs2)"
    by (cases "exec_schema B rest d1")
  from Cons.prems(3) ex run have r1: "r1 = None" and r2: "r2 = None" and d2: "d2 = db1"
    by (auto split: option.splits)
  from Cons.prems(1) have "stmt \<in> set stmts" by simp
  from kept [OF this Cons.prems(2) ex [unfolded r1]]
  have found: "table_exists_query B d1 = Scanned True" .
  from Cons.prems(1) have "set rest \<subseteq> set stmts" by simp
  from Cons.IH [OF this found run [unfolded r2 d2]] show ?case .
qed

text \<open>
  C3, as the code has it. Take a database whose existence query tells the truth about what
  the installer creates: it finds the table once \<open>CREATE TABLE kine\<close> has succeeded,
  and still finds it after each of the index statements. When a run of the installer on it
  has returned no error, the query finds the table, and a second run, with any schema
  version, executes no statement of the schema and none of the migrations, leaves the
  database as it is and returns no error.
\<close>

theorem setup_db_second_run_noop:
  assumes created: "\<And>d d'. db_exec B (hd schema) d = (None, d') \<Longrightarrow>
      table_exists_query B d' = Scanned True"
    and kept: "\<And>stmt d d'. stmt \<in> set (tl schema) \<Longrightarrow>
      table_exists_query B d = Scanned True \<Longrightarrow>
      db_exec B stmt d = (None, d') \<Longrightarrow> table_exists_query B d' = Scanned True"
    and first: "setup_db B env db = (None, db1, evs)"
  shows "table_exists_query B db1 = Scanned True \<and> setup_db B env' db1 = (None, db1, [])"
proof -
  have found: "table_exists_query B db1 = Scanned True"
  proof (cases "table_exists_query B db = Scanned True")
    case True
    with first show ?thesis by (simp add: setup_db_unfold)
  next
    case False
    then have "\<not> (case table_exists_query B db of Scanned b \<Rightarrow> b | ScanErr err \<Rightarrow> False)"
      by (auto split: scan_result.splits)
    with first obtain evs0 where run: "exec_schema B schema db = (None, db1, evs0)"
      by (auto simp: setup_db_unfold split: prod.splits)
    have sch: "schema = hd schema # tl schema" by (simp add: schema_def)
    obtain r1 d1 where ex: "db_exec B (hd schema) db = (r1, d1)"
      by (cases "db_exec B (hd schema) db")
    obtain r2 d2 evs2 where rest: "exec_schema B (tl schema) d1 = (r2, d2, evs2)"
      by (cases "exec_schema B (tl schema) d1")
    from run have "exec_schema B (hd schema # tl schema) db = (None, db1, evs0)"
      using sch by simp
    with ex rest have r1: "r1 = None" and r2: "r2 = None" and d2: "d2 = db1"
      by (auto split: option.splits)
    from created [OF ex [unfolded r1]] have "table_exists_query B d1 = Scanned True" .
    from exec_schema_keeps_table [of "tl schema" B "tl schema", OF kept subset_refl this
        rest [unfolded r2 d2]]
    show ?thesis .
  qed
  then show ?thesis by (simp add: setup_db_unfold)
qed

theorem setup_db_second_run_noop_witness:
  "setup_db (catalog_backend None []) None []
     = (None, schema, map (\<lambda>stmt. SetupExec stmt None) schema)
   \<and> table_exists_query (catalog_backend None []) schema = Scanned True
   \<and> setup_db (catalog_backend None []) None schema = (None, schema, [])
   \<and> setup_db (catalog_backend None []) (Some ''1'') schema = (None, schema, [])"
proof -
  let ?B = "catalog_backend None []"
  have created: "table_exists_query ?B d' = Scanned True"
    if "db_exec ?B (hd schema) d = (None, d')" for d d'
    using that by (auto simp: catalog_backend_def split: if_splits)
  have kept: "table_exists_query ?B d' = Scanned True"
    if "stmt \<in> set (tl schema)" "table_exists_query ?B d = Scanned True"
      "db_exec ?B stmt d = (None, d')" for stmt d d'
    using that by (auto simp: catalog_backend_def split: if_splits)
  have absent: "table_exists_query ?B [] = ScanErr ErrNoRows"
    by (simp add: catalog_backend_def)
  have "exec_schema ?B schema []
     = (None, [] @ schema, map (\<lambda>stmt. SetupExec stmt None) schema)"
    by (rule catalog_exec_fresh) (simp_all add: distinct_schema)
  with absent have first: "setup_db ?B None []
     = (None, schema, map (\<lambda>stmt. SetupExec stmt None) schema)"
    by (simp add: setup_db_unfold)
  from setup_db_second_run_noop [where B = ?B and env' = None, OF created kept first]
    setup_db_second_run_noop [where B = ?B and env' = "Some ''1''", OF created kept first]
    first
  show ?thesis by simp
qed

text \<open>
  Without this condition on the existence query the sentence of the specification fails.
  On a database whose existence query fails with ORA-01031 each time, the first run logs
  the warning, creates the table and the indexes and returns no error; the second run, on
  the database the first one left, logs the warning again, executes \<open>CREATE TABLE kine\<close>
  and returns its error ORA-00955.
\<close>

theorem setup_db_second_run_fails_when_query_fails:
  "setup_db (catalog_backend (Some (OracleError 1031 ''insufficient privileges'')) []) None []
     = (None, schema,
        Warnf (OracleError 1031 ''insufficient privileges'')
          # map (\<lambda>stmt. SetupExec stmt None) schema)
   \<and> setup_db (catalog_backend (Some (OracleError 1031 ''insufficient privileges'')) []) None
       schema
     = (Some (OracleError 955 ''name is already used by an existing object''), schema,
        [Warnf (OracleError 1031 ''insufficient privileges''),
         SetupExec (hd schema)
           (Some (OracleError 955 ''name is already used by an existing object''))])"
proof -
  let ?e = "OracleError 1031 ''insufficient privileges''"
  let ?B = "catalog_backend (Some ?e) []"
  have scan: "table_exists_query ?B db = ScanErr ?e" for db
    by (simp add: catalog_backend_def)
  have "exec_schema ?B schema [] = (None, [] @ schema, map (\<lambda>stmt. SetupExec stmt None) schema)"
    by (rule catalog_exec_fresh) (simp_all add: distinct_schema)
  then have first: "setup_db ?B None []
     = (None, schema, Warnf ?e # map (\<lambda>stmt. SetupExec stmt None) schema)"
    using scan [of "[]"] by (simp add: setup_db_unfold)
  have sch: "schema = hd schema # tl schema" by (simp add: schema_def)
  then have mem: "hd schema \<in> set schema" by (metis list.set_intros(1))
  have "exec_schema ?B (hd schema # tl schema) schema
     = (Some (OracleError 955 ''name is already used by an existing object''), schema,
        [SetupExec (hd schema)
           (Some (OracleError 955 ''name is already used by an existing object''))])"
    using mem by (rule catalog_exec_taken) simp
  then have "exec_schema ?B schema schema
     = (Some (OracleError 955 ''name is already used by an existing object''), schema,
        [SetupExec (hd schema)
           (Some (OracleError 955 ''name is already used by an existing object''))])"
    unfolding sch [symmetric] .
  then have second: "setup_db ?B None schema
     = (Some (OracleError 955 ''name is already used by an existing object''), schema,
        [Warnf ?e, SetupExec (hd schema)
           (Some (OracleError 955 ''name is already used by an existing object''))])"
    using scan [of schema] by (simp add: setup_db_unfold)
  from first second show ?thesis by (rule conjI)
qed

lemma nat_sint_nonneg: "0 \<le> sint (w :: 64 word) \<Longrightarrow> nat (sint w) = unat w"
proof -
  assume nonneg: "0 \<le> sint w"
  have "sint w < 2 ^ 63" using sint_lt [of w] by simp
  then have lt: "sint w < 2 ^ 64" by simp
  have "uint w = take_bit 64 (sint w)" by (simp add: uint_sint)
  also have "\<dots> = sint w" using nonneg lt by (rule take_bit_int_eq_self)
  finally show ?thesis by (simp add: unat_eq_nat_uint)
qed

text \<open>
  C4. The migration statements that the installer executes are, with their indices and in
  this order, the entries of \<open>schemaMigrations\<close> below the schema version that are not
  empty, whatever the value of the variable; when the variable is not set or does not
  parse, none is executed. (Both entries of \<open>schemaMigrations\<close> are empty, so none is
  ever executed.) The loop does the same on any list of migrations \<open>migs\<close> for a version
  \<open>V\<close> that is not negative as an \<open>int\<close>, as long as the statements succeed.
\<close>

theorem setup_db_migrations_below_version:
  "migration_calls (snd (snd (setup_db B env db)))
     = filter (\<lambda>(i, stmt). stmt \<noteq> [])
         (take (unat (fst (ParseUint (Getenv env)))) (enumerate 0 schemaMigrations))
   \<and> (env = None \<or> snd (ParseUint (Getenv env)) \<noteq> None
        \<longrightarrow> migration_calls (snd (snd (setup_db B env db))) = [])
   \<and> ((\<forall>stmt d. fst (db_exec B stmt d) = None) \<and> 0 \<le> sint (V :: 64 word)
        \<longrightarrow> migration_calls (snd (snd (run_migrations B (sint V) 0 migs db)))
            = filter (\<lambda>(i, stmt). stmt \<noteq> []) (take (unat V) (enumerate 0 migs)))"
proof -
  obtain r db' evs where run: "setup_db B env db = (r, db', evs)"
    by (cases "setup_db B env db")
  from setup_db_calls [OF run] obtain evs0 where
    evs0: "(if (case table_exists_query B db of Scanned b \<Rightarrow> b | ScanErr err \<Rightarrow> False)
            then (None, db, []) else exec_schema B schema db) = (r, db', evs0)"
    and m: "migration_calls evs = migration_calls evs0"
    by blast
  from evs0 have "migration_calls evs0 = []"
    by (auto split: if_splits dest: exec_schema_no_migration)
  with m run have none: "migration_calls (snd (snd (setup_db B env db))) = []" by simp
  have empty: "filter (\<lambda>(i, stmt). stmt \<noteq> []) (take k (enumerate 0 schemaMigrations)) = []" for k
    by (auto simp: schemaMigrations_def filter_empty_conv dest!: in_set_takeD)
  have general: "migration_calls (snd (snd (run_migrations B (sint V) 0 migs db)))
            = filter (\<lambda>(i, stmt). stmt \<noteq> []) (take (unat V) (enumerate 0 migs))"
    if ok: "\<forall>stmt d. fst (db_exec B stmt d) = None" and v: "0 \<le> sint V"
  proof -
    obtain r2 d2 evs2 where loop: "run_migrations B (sint V) 0 migs db = (r2, d2, evs2)"
      by (cases "run_migrations B (sint V) 0 migs db")
    from run_migrations_below_version [OF ok v loop] nat_sint_nonneg [OF v] loop
    show ?thesis by simp
  qed
  from none empty general show ?thesis by simp
qed

theorem setup_db_migrations_below_version_witness:
  "snd (ParseUint (Getenv (Some ''two''))) \<noteq> None
   \<and> migration_calls (snd (snd (setup_db accepting_backend (Some ''two'') []))) = []
   \<and> migration_calls (snd (snd (setup_db accepting_backend None []))) = []
   \<and> fst (ParseUint (Getenv (Some ''3''))) = 3
   \<and> migration_calls (snd (snd (setup_db accepting_backend (Some ''3'') []))) = []
   \<and> migration_calls (snd (snd (run_migrations accepting_backend (sint (3 :: 64 word)) 0
        [''ALTER TABLE kine ADD a INTEGER'', [], ''ALTER TABLE kine ADD b INTEGER'',
         ''ALTER TABLE kine ADD c INTEGER''] [])))
       = [(0, ''ALTER TABLE kine ADD a INTEGER''), (2, ''ALTER TABLE kine ADD b INTEGER'')]"
proof -
  let ?migs = "[''ALTER TABLE kine ADD a INTEGER'', [], ''ALTER TABLE kine ADD b INTEGER'',
         ''ALTER TABLE kine ADD c INTEGER'']"
  note two_run = setup_db_migrations_below_version
    [of accepting_backend "Some ''two''" "[]" 3 ?migs]
  note unset_run = setup_db_migrations_below_version [of accepting_backend None "[]" 3 ?migs]
  note three_run = setup_db_migrations_below_version
    [of accepting_backend "Some ''3''" "[]" 3 ?migs]
  have ok: "\<forall>stmt d. fst (db_exec accepting_backend stmt d) = None"
    by (simp add: accepting_backend_def)
  have v: "0 \<le> sint (3 :: 64 word)" by simp
  have three: "fst (ParseUint (Getenv (Some ''3''))) = 3"
    by (simp add: ParseUint_def Getenv_def cutoff_def maxUint64_def word_le_def word_less_def)
  have two: "snd (ParseUint (Getenv (Some ''two''))) \<noteq> None"
    by (simp add: ParseUint_def Getenv_def)
  from two_run two
  have c1: "migration_calls (snd (snd (setup_db accepting_backend (Some ''two'') []))) = []"
    by blast
  from unset_run
  have c2: "migration_calls (snd (snd (setup_db accepting_backend None []))) = []"
    by blast
  from three_run
  have "migration_calls (snd (snd (setup_db accepting_backend (Some ''3'') [])))
      = filter (\<lambda>(i, stmt). stmt \<noteq> [])
          (take (unat (fst (ParseUint (Getenv (Some ''3''))))) (enumerate 0 schemaMigrations))"
    by blast
  also have "\<dots> = []"
    unfolding three by code_simp
  finally have c3:
    "migration_calls (snd (snd (setup_db accepting_backend (Some ''3'') []))) = []" .
  from three_run ok v
  have "migration_calls (snd (snd (run_migrations accepting_backend (sint (3 :: 64 word)) 0
          ?migs [])))
      = filter (\<lambda>(i, stmt). stmt \<noteq> []) (take (unat (3 :: 64 word)) (enumerate 0 ?migs))"
    by blast
  also have "\<dots>
      = [(0, ''ALTER TABLE kine ADD a INTEGER''), (2, ''ALTER TABLE kine ADD b INTEGER'')]"
    by code_simp
  finally show ?thesis using two c1 c2 three c3 by (intro conjI)
qed

text \<open>
  C8. When a \<open>db.Exec\<close> of the run returns an error, it is the last \<open>db.Exec\<close> of the
  run, the installer returns this error with the database as the failing statement left
  it, and \<open>New\<close> returns \<open>false\<close>, no backend and this error. The statements executed
  are an initial segment of the list, each executed once.
\<close>

theorem setup_db_stops_at_first_failure:
  "setup_db B env db = (r, db', evs) \<Longrightarrow> i < length (exec_calls evs) \<Longrightarrow>
   snd (exec_calls evs ! i) = Some err \<Longrightarrow>
   Suc i = length (exec_calls evs)
   \<and> r = Some err
   \<and> (\<exists>d. db_exec B (fst (exec_calls evs ! i)) d = (Some err, db'))
   \<and> New B env (Inr db) = (False, None, Some err, evs)
   \<and> prefix (map fst (exec_calls evs)) schema
   \<and> distinct (map fst (exec_calls evs))"
proof -
  assume run: "setup_db B env db = (r, db', evs)"
    and i: "i < length (exec_calls evs)" and fail: "snd (exec_calls evs ! i) = Some err"
  from setup_db_calls [OF run] obtain evs0 where
    evs0: "(if (case table_exists_query B db of Scanned b \<Rightarrow> b | ScanErr err \<Rightarrow> False)
            then (None, db, []) else exec_schema B schema db) = (r, db', evs0)"
    and c: "exec_calls evs = exec_calls evs0"
    by (elim exE conjE)
  from i c have "evs0 \<noteq> []" by auto
  with evs0 have ex: "exec_schema B schema db = (r, db', evs0)"
    by (simp split: if_splits)
  from i c have i0: "i < length (exec_calls evs0)" by simp
  from fail c have fail0: "snd (exec_calls evs0 ! i) = Some err" by simp
  from exec_schema_failure_last [OF ex i0 fail0]
  have last: "Suc i = length (exec_calls evs) \<and> r = Some err
      \<and> (\<exists>d. db_exec B (fst (exec_calls evs ! i)) d = (Some err, db'))"
    unfolding c .
  from exec_schema_prefix [OF ex] have pre: "prefix (map fst (exec_calls evs)) schema"
    unfolding c .
  from pre distinct_schema have dist: "distinct (map fst (exec_calls evs))"
    by (rule distinct_prefix)
  from last have r: "r = Some err" by (elim conjE)
  have new: "New B env (Inr db) = (False, None, Some err, evs)"
    by (simp add: New_def run r)
  from last new pre dist show ?thesis by (intro conjI) (elim conjE, assumption)+
qed

theorem setup_db_stops_at_first_failure_witness:
  "setup_db (catalog_backend None [schema ! 2]) None []
     = (Some (OtherError ''connection lost''), take 2 schema,
        map (\<lambda>stmt. SetupExec stmt None) (take 2 schema)
          @ [SetupExec (schema ! 2) (Some (OtherError ''connection lost''))])
   \<and> New (catalog_backend None [schema ! 2]) None (Inr [])
     = (False, None, Some (OtherError ''connection lost''),
        map (\<lambda>stmt. SetupExec stmt None) (take 2 schema)
          @ [SetupExec (schema ! 2) (Some (OtherError ''connection lost''))])"
proof -
  let ?B = "catalog_backend None [schema ! 2]"
  let ?evs = "map (\<lambda>stmt. SetupExec stmt None) (take 2 schema)
          @ [SetupExec (schema ! 2) (Some (OtherError ''connection lost''))]"
  have len: "length schema = 6" by (simp add: schema_def)
  then have split: "schema = take 2 schema @ schema ! 2 # drop 3 schema"
    using id_take_nth_drop [of 2 schema] by simp
  have "distinct (take 3 schema)"
    using distinct_schema by (rule distinct_take)
  moreover have "take 3 schema = take 2 schema @ [schema ! 2]"
    using len take_Suc_conv_app_nth [of 2 schema] by (simp add: numeral_3_eq_3)
  ultimately have d: "distinct (take 2 schema @ [schema ! 2])" by simp
  have absent: "table_exists_query ?B [] = ScanErr ErrNoRows"
    by (simp add: catalog_backend_def)
  have "exec_schema ?B (take 2 schema @ schema ! 2 # drop 3 schema) []
     = (Some (OtherError ''connection lost''), [] @ take 2 schema, ?evs)"
    using d by (rule catalog_exec_broken) simp
  then have "exec_schema ?B schema []
     = (Some (OtherError ''connection lost''), [] @ take 2 schema, ?evs)"
    unfolding split [symmetric] .
  with absent have run: "setup_db ?B None []
     = (Some (OtherError ''connection lost''), take 2 schema, ?evs)"
    by (simp add: setup_db_unfold)
  have calls: "exec_calls ?evs = map (\<lambda>stmt. (stmt, None)) (take 2 schema)
      @ [(schema ! 2, Some (OtherError ''connection lost''))]"
    by (simp add: exec_calls_append len take_Suc_conv_app_nth numeral_2_eq_2)
  have i: "2 < length (exec_calls ?evs)" unfolding calls using len by simp
  have fail: "snd (exec_calls ?evs ! 2) = Some (OtherError ''connection lost'')"
    unfolding calls using len by (simp add: nth_append)
  from setup_db_stops_at_first_failure [OF run i fail] run show ?thesis by simp
qed






section \<open>The list queries\<close>

lemma sql_max_Some:
  "sql_max (map (\<lambda>r. Some (f r)) xs) = (if xs = [] then None else Some (Max (f ` set xs)))"
proof (induction xs)
  case Nil
  then show ?case by simp
next
  case (Cons x xs)
  then show ?case by (cases "xs = []") (simp_all add: max.commute)
qed

lemma filter_eq_distinct:
  "distinct ms \<Longrightarrow> filter (\<lambda>m. m = a) ms = (if a \<in> set ms then [a] else [])"
  by (induction ms) auto

lemma join_distinct:
  "distinct ms \<Longrightarrow>
   concat (map (\<lambda>r. map (\<lambda>m. r) (filter (\<lambda>m. m = Some (f r)) ms)) tbl)
     = filter (\<lambda>r. Some (f r) \<in> set ms) tbl"
  by (induction tbl) (simp_all add: filter_eq_distinct)

lemma concat_map_filter_skip:
  "(\<And>x. x \<in> set xs \<Longrightarrow> \<not> P x \<Longrightarrow> F x = []) \<Longrightarrow>
   concat (map F (filter P xs)) = concat (map F xs)"
  by (induction xs) auto

lemma map_insort_key:
  "map g (insort_key (\<lambda>y. f (g y)) y ys) = insort_key f (g y) (map g ys)"
  by (induction ys) auto

lemma map_sort_key:
  "map g (sort_key (\<lambda>y. f (g y)) ys) = sort_key f (map g ys)"
  by (induction ys) (simp_all add: map_insort_key)

lemma distinct_map_sort_key:
  "distinct (map f (sort_key k ys)) = distinct (map f ys)"
  by (simp add: distinct_map)

lemma maxkv_alt:
  "maxkv cond tbl pat =
     map (\<lambda>n. Some (Max (kv_id ` {r \<in> set tbl. cand cond pat r \<and> kv_name r = n})))
       (remdups (map kv_name (filter (cand cond pat) tbl)))"
proof -
  have "sql_max (map (\<lambda>mkv. Some (kv_id mkv))
          (filter (\<lambda>mkv. kv_name mkv = n) (filter (cand cond pat) tbl)))
        = Some (Max (kv_id ` {r \<in> set tbl. cand cond pat r \<and> kv_name r = n}))"
    if "n \<in> set (remdups (map kv_name (filter (cand cond pat) tbl)))" for n
  proof -
    from that have ne: "filter (\<lambda>mkv. kv_name mkv = n) (filter (cand cond pat) tbl) \<noteq> []"
      by (auto simp: filter_empty_conv)
    have "set (filter (\<lambda>mkv. kv_name mkv = n) (filter (cand cond pat) tbl))
          = {r \<in> set tbl. cand cond pat r \<and> kv_name r = n}"
      by auto
    with ne show ?thesis by (simp add: sql_max_Some del: set_filter)
  qed
  note grp = this
  have "maxkv cond tbl pat =
      map (\<lambda>n. sql_max (map (\<lambda>mkv. Some (kv_id mkv))
                 (filter (\<lambda>mkv. kv_name mkv = n) (filter (cand cond pat) tbl))))
        (remdups (map kv_name (filter (cand cond pat) tbl)))"
    by (simp add: maxkv_def Let_def cand_def [abs_def])
  also have "\<dots> = map (\<lambda>n. Some (Max (kv_id ` {r \<in> set tbl. cand cond pat r \<and> kv_name r = n})))
       (remdups (map kv_name (filter (cand cond pat) tbl)))"
    by (rule map_cong [OF refl]) (rule grp)
  finally show ?thesis .
qed

lemma group_max_attained:
  assumes "n \<in> set (map kv_name (filter (cand cond pat) tbl))"
  shows "\<exists>r \<in> set tbl. cand cond pat r \<and> kv_name r = n
           \<and> kv_id r = Max (kv_id ` {r \<in> set tbl. cand cond pat r \<and> kv_name r = n})"
proof -
  let ?G = "{r \<in> set tbl. cand cond pat r \<and> kv_name r = n}"
  from assms have "?G \<noteq> {}" by auto
  moreover have "finite ?G" by simp
  ultimately have "Max (kv_id ` ?G) \<in> kv_id ` ?G" by (intro Max_in) auto
  then show ?thesis by auto
qed

lemma in_maxkv_row:
  "m \<in> set (maxkv cond tbl pat) \<Longrightarrow> \<exists>r \<in> set tbl. cand cond pat r \<and> m = Some (kv_id r)"
proof -
  assume "m \<in> set (maxkv cond tbl pat)"
  then obtain n where n: "n \<in> set (map kv_name (filter (cand cond pat) tbl))"
    and m: "m = Some (Max (kv_id ` {r \<in> set tbl. cand cond pat r \<and> kv_name r = n}))"
    unfolding maxkv_alt by auto
  from group_max_attained [OF n] m show ?thesis by auto
qed

lemma in_maxkv_iff:
  assumes inj: "inj_on kv_id (set tbl)" and r: "r \<in> set tbl"
  shows "Some (kv_id r) \<in> set (maxkv cond tbl pat) \<longleftrightarrow>
         cand cond pat r \<and> (\<forall>r' \<in> set tbl. cand cond pat r' \<and> kv_name r' = kv_name r
                                 \<longrightarrow> kv_id r' \<le> kv_id r)"
proof
  assume "Some (kv_id r) \<in> set (maxkv cond tbl pat)"
  then obtain n where n: "n \<in> set (map kv_name (filter (cand cond pat) tbl))"
    and m: "kv_id r = Max (kv_id ` {r \<in> set tbl. cand cond pat r \<and> kv_name r = n})"
    unfolding maxkv_alt by auto
  let ?G = "{r \<in> set tbl. cand cond pat r \<and> kv_name r = n}"
  from group_max_attained [OF n] obtain r0 where r0: "r0 \<in> set tbl" "cand cond pat r0"
    "kv_name r0 = n" "kv_id r0 = Max (kv_id ` ?G)"
    by auto
  with m have "kv_id r0 = kv_id r" by simp
  from inj_onD [OF inj this r0(1) r] have eq: "r0 = r" .
  have "kv_id r' \<le> kv_id r" if "r' \<in> set tbl" "cand cond pat r'" "kv_name r' = kv_name r" for r'
  proof -
    from that eq r0 have "kv_id r' \<in> kv_id ` ?G" by auto
    then have "kv_id r' \<le> Max (kv_id ` ?G)" by (intro Max_ge) auto
    with m show ?thesis by simp
  qed
  with eq r0 show "cand cond pat r \<and> (\<forall>r' \<in> set tbl. cand cond pat r' \<and> kv_name r' = kv_name r
                                 \<longrightarrow> kv_id r' \<le> kv_id r)"
    by auto
next
  assume a: "cand cond pat r \<and> (\<forall>r' \<in> set tbl. cand cond pat r' \<and> kv_name r' = kv_name r
                                 \<longrightarrow> kv_id r' \<le> kv_id r)"
  let ?G = "{r' \<in> set tbl. cand cond pat r' \<and> kv_name r' = kv_name r}"
  have "Max (kv_id ` ?G) = kv_id r"
  proof (rule Max_eqI)
    show "finite (kv_id ` ?G)" by simp
    show "kv_id r \<in> kv_id ` ?G" using a r by auto
    show "\<And>y. y \<in> kv_id ` ?G \<Longrightarrow> y \<le> kv_id r" using a by auto
  qed
  moreover have "kv_name r \<in> set (map kv_name (filter (cand cond pat) tbl))"
    using a r by auto
  ultimately show "Some (kv_id r) \<in> set (maxkv cond tbl pat)"
    unfolding maxkv_alt by (auto simp: image_iff intro!: bexI [where x = "kv_name r"])
qed

lemma distinct_maxkv:
  assumes inj: "inj_on kv_id (set tbl)"
  shows "distinct (maxkv cond tbl pat)"
proof -
  let ?g = "\<lambda>n. Some (Max (kv_id ` {r \<in> set tbl. cand cond pat r \<and> kv_name r = n}))"
  let ?names = "map kv_name (filter (cand cond pat) tbl)"
  have "inj_on ?g (set ?names)"
  proof (rule inj_onI)
    fix n n' assume n: "n \<in> set ?names" and n': "n' \<in> set ?names" and eq: "?g n = ?g n'"
    from group_max_attained [OF n] obtain r where r: "r \<in> set tbl" "kv_name r = n"
      "kv_id r = Max (kv_id ` {r \<in> set tbl. cand cond pat r \<and> kv_name r = n})"
      by auto
    from group_max_attained [OF n'] obtain r' where r': "r' \<in> set tbl" "kv_name r' = n'"
      "kv_id r' = Max (kv_id ` {r \<in> set tbl. cand cond pat r \<and> kv_name r = n'})"
      by auto
    from eq r r' have "kv_id r = kv_id r'" by simp
    from inj_onD [OF inj this r(1) r'(1)] have "r = r'" .
    with r r' show "n = n'" by simp
  qed
  then show ?thesis
    unfolding maxkv_alt by (simp add: distinct_map)
qed

lemma thename_mk [simp]:
  "thename \<lparr>current_rev = a, compact_rev = b, kv = r\<rparr> = kv_name r"
  by (simp add: thename_def)

lemma listSQL_sorted_filter:
  assumes d: "distinct (map kv_id tbl)"
  shows "listSQL cond tbl pat del =
     sort_key thename
       (map (\<lambda>r. \<lparr>current_rev = revSQL tbl, compact_rev = compactRevSQL tbl, kv = r\<rparr>)
          (filter (\<lambda>r. (cand cond pat r
                         \<and> (\<forall>r' \<in> set tbl. cand cond pat r' \<and> kv_name r' = kv_name r
                               \<longrightarrow> kv_id r' \<le> kv_id r))
                        \<and> deleted_ok del r) tbl))"
proof -
  from d have inj: "inj_on kv_id (set tbl)" by (simp add: distinct_map)
  have "concat (map (\<lambda>r. map (\<lambda>m. r)
            (filter (\<lambda>m. m = Some (kv_id r)) (maxkv cond tbl pat))) tbl)
        = filter (\<lambda>r. Some (kv_id r) \<in> set (maxkv cond tbl pat)) tbl"
    by (rule join_distinct) (rule distinct_maxkv [OF inj])
  also have "\<dots> = filter (\<lambda>r. cand cond pat r
                         \<and> (\<forall>r' \<in> set tbl. cand cond pat r' \<and> kv_name r' = kv_name r
                               \<longrightarrow> kv_id r' \<le> kv_id r)) tbl"
    by (rule filter_cong [OF refl]) (rule in_maxkv_iff [OF inj])
  finally show ?thesis
    by (simp add: listSQL_def Let_def)
qed

lemma kv_of_rows: "map kv (map (\<lambda>r. \<lparr>current_rev = a, compact_rev = b, kv = r\<rparr>) xs) = xs"
  by (induction xs) simp_all

lemma kv_sort_rows:
  "map kv (sort_key thename (map (\<lambda>r. \<lparr>current_rev = a, compact_rev = b, kv = r\<rparr>) xs))
   = sort_key kv_name xs"
proof -
  have t: "thename = (\<lambda>l. kv_name (kv l))" by (rule ext) (simp add: thename_def)
  have "map kv (sort_key thename ys) = sort_key kv_name (map kv ys)" for ys
    unfolding t by (rule map_sort_key)
  then show ?thesis by (simp only: kv_of_rows)
qed

text \<open>
  C1, as the code has it. On a table whose ids are distinct (\<open>id\<close> is the primary key),
  \<open>GetCurrentSQL\<close> returns its rows in strictly ascending order of name, so at most one
  row per name; the rows it returns are exactly the rows of the table whose name matches
  the pattern and is greater than \<open>NVL(start, CHR(1))\<close>, that have the largest id of all
  the rows of their name, deleted or not, and whose \<open>deleted\<close> is 0 or the flag. A name
  whose latest row is deleted has no row in the result unless the flag asks for it.
\<close>

theorem GetCurrentSQL_latest_row_per_name:
  assumes d: "distinct (map kv_id tbl)"
  shows "sorted_wrt (<) (map thename (GetCurrentSQL tbl pat start del))
    \<and> set (map kv (GetCurrentSQL tbl pat start del))
        = {r \<in> set tbl. sql_like (kv_name r) pat \<and> sql_gt (kv_name r) (NVL start CHR1)
             \<and> latest tbl r \<and> deleted_ok del r}"
proof -
  let ?cond = "\<lambda>mkv. sql_gt (kv_name mkv) (NVL start CHR1)"
  let ?P = "\<lambda>r. (cand ?cond pat r
                \<and> (\<forall>r' \<in> set tbl. cand ?cond pat r' \<and> kv_name r' = kv_name r
                      \<longrightarrow> kv_id r' \<le> kv_id r))
               \<and> deleted_ok del r"
  let ?mk = "\<lambda>r. \<lparr>current_rev = revSQL tbl, compact_rev = compactRevSQL tbl, kv = r\<rparr>"
  from d have inj: "inj_on kv_id (set tbl)" and dt: "distinct tbl"
    by (simp_all add: distinct_map)
  have res: "GetCurrentSQL tbl pat start del = sort_key thename (map ?mk (filter ?P tbl))"
    unfolding GetCurrentSQL_def by (rule listSQL_sorted_filter [OF d])
  have P: "?P r \<longleftrightarrow> sql_like (kv_name r) pat \<and> sql_gt (kv_name r) (NVL start CHR1)
             \<and> latest tbl r \<and> deleted_ok del r" if "r \<in> set tbl" for r
    by (auto simp: cand_def latest_def list_all_iff)
  have "inj_on kv_name (set (filter ?P tbl))"
  proof (rule inj_onI)
    fix r1 r2 assume r1: "r1 \<in> set (filter ?P tbl)" and r2: "r2 \<in> set (filter ?P tbl)"
      and n: "kv_name r1 = kv_name r2"
    from r1 r2 n have "kv_id r2 \<le> kv_id r1" "kv_id r1 \<le> kv_id r2" by auto
    then have "kv_id r1 = kv_id r2" by simp
    from inj_onD [OF inj this] r1 r2 show "r1 = r2" by simp
  qed
  with dt have "distinct (map kv_name (filter ?P tbl))"
    by (simp add: distinct_map)
  then have "distinct (map thename (GetCurrentSQL tbl pat start del))"
    unfolding res by (simp add: distinct_map_sort_key comp_def)
  moreover have "sorted (map thename (GetCurrentSQL tbl pat start del))"
    unfolding res by (rule sorted_sort_key)
  ultimately have "sorted_wrt (<) (map thename (GetCurrentSQL tbl pat start del))"
    by (simp add: strict_sorted_iff)
  moreover have "set (map kv (GetCurrentSQL tbl pat start del))
        = {r \<in> set tbl. sql_like (kv_name r) pat \<and> sql_gt (kv_name r) (NVL start CHR1)
             \<and> latest tbl r \<and> deleted_ok del r}"
    unfolding res kv_sort_rows using P by auto
  ultimately show ?thesis by simp
qed

theorem GetCurrentSQL_latest_row_per_name_witness:
  "distinct (map kv_id example_kine)
   \<and> sorted_wrt (<) (map thename (GetCurrentSQL example_kine ''%'' [] 1))
   \<and> map theid (GetCurrentSQL example_kine ''%'' [] 1) = [4, 3]
   \<and> map thename (GetCurrentSQL example_kine ''%'' [] 1) = [''a'', ''b'']
   \<and> map theid (GetCurrentSQL example_kine ''%'' [] 0) = [3]
   \<and> map theid (GetCurrentSQL example_kine ''%'' ''a'' 1) = [3]"
proof -
  have d: "distinct (map kv_id example_kine)"
    by (simp add: example_kine_def row_def)
  from GetCurrentSQL_latest_row_per_name [OF d, where pat = "''%''" and start = "[]" and del = 1]
  have "sorted_wrt (<) (map thename (GetCurrentSQL example_kine ''%'' [] 1))"
    by (rule conjunct1)
  moreover have "map theid (GetCurrentSQL example_kine ''%'' [] 1) = [4, 3]"
    by code_simp
  moreover have "map thename (GetCurrentSQL example_kine ''%'' [] 1) = [''a'', ''b'']"
    by code_simp
  moreover have "map theid (GetCurrentSQL example_kine ''%'' [] 0) = [3]"
    by code_simp
  moreover have "map theid (GetCurrentSQL example_kine ''%'' ''a'' 1) = [3]"
    by code_simp
  ultimately show ?thesis using d by simp
qed

text \<open>
  The sentence of the specification fails on a key that was written and then deleted: its rows that are
  not deleted have a row of largest id, yet the query returns no row for the key.
\<close>

theorem GetCurrentSQL_hides_deleted_key:
  "sql_like ''a'' ''a%''
   \<and> latest_live_list written_then_deleted ''a%'' 0 = [row 1 ''a'' 0 0]
   \<and> GetCurrentSQL written_then_deleted ''a%'' [] 0 = []
   \<and> map kv (GetCurrentSQL written_then_deleted ''a%'' [] 0)
       \<noteq> latest_live_list written_then_deleted ''a%'' 0"
  by code_simp

lemma maxkv_cong:
  "filter (\<lambda>mkv. sql_like (kv_name mkv) pat \<and> c1 mkv) t1
     = filter (\<lambda>mkv. sql_like (kv_name mkv) pat \<and> c2 mkv) t2 \<Longrightarrow>
   maxkv c1 t1 pat = maxkv c2 t2 pat"
  by (simp add: maxkv_def)

lemma ListRevisionStartSQL_ids:
  "l \<in> set (ListRevisionStartSQL tbl pat revision del) \<Longrightarrow> theid l \<le> revision"
proof -
  assume "l \<in> set (ListRevisionStartSQL tbl pat revision del)"
  then have "Some (theid l) \<in> set (maxkv (\<lambda>mkv. kv_id mkv \<le> revision) tbl pat)"
    by (auto simp: ListRevisionStartSQL_def listSQL_def Let_def theid_def)
  from in_maxkv_row [OF this] show ?thesis by (auto simp: cand_def)
qed

text \<open>
  C6, as the code has it. \<open>ListRevisionStartSQL\<close> with the ceiling \<open>revision\<close> returns
  no row with a larger id. The rows \<open>kv\<close> of its result are those of \<open>GetCurrentSQL\<close> on
  the table as of \<open>revision\<close>, in the same order, when every name of that table matching
  the pattern is greater than \<open>NVL(start, CHR(1))\<close>, the condition that \<open>GetCurrentSQL\<close>
  has and \<open>ListRevisionStartSQL\<close> has not. The two leading columns are computed on the
  whole table and are left out of the comparison.
\<close>

theorem ListRevisionStartSQL_snapshot:
  "(\<forall>l \<in> set (ListRevisionStartSQL tbl pat revision del). theid l \<le> revision)
   \<and> ((\<forall>r \<in> set (as_of revision tbl).
          sql_like (kv_name r) pat \<longrightarrow> sql_gt (kv_name r) (NVL start CHR1))
      \<longrightarrow> map kv (ListRevisionStartSQL tbl pat revision del)
          = map kv (GetCurrentSQL (as_of revision tbl) pat start del))"
proof (intro conjI impI ballI)
  fix l assume "l \<in> set (ListRevisionStartSQL tbl pat revision del)"
  then show "theid l \<le> revision" by (rule ListRevisionStartSQL_ids)
next
  assume above: "\<forall>r \<in> set (as_of revision tbl).
          sql_like (kv_name r) pat \<longrightarrow> sql_gt (kv_name r) (NVL start CHR1)"
  let ?cL = "\<lambda>mkv. kv_id mkv \<le> revision"
  let ?cG = "\<lambda>mkv. sql_gt (kv_name mkv) (NVL start CHR1)"
  let ?M = "maxkv ?cL tbl pat"
  let ?F = "\<lambda>r. map (\<lambda>m. r) (filter (\<lambda>m. m = Some (kv_id r)) ?M)"
  have "filter (\<lambda>mkv. sql_like (kv_name mkv) pat \<and> ?cG mkv) (as_of revision tbl)
      = filter (\<lambda>mkv. sql_like (kv_name mkv) pat \<and> ?cL mkv) tbl"
    using above unfolding as_of_def filter_filter
    by (intro filter_cong refl) auto
  then have M: "maxkv ?cG (as_of revision tbl) pat = ?M"
    by (rule maxkv_cong)
  have skip: "?F r = []" if "r \<in> set tbl" "\<not> kv_id r \<le> revision" for r
  proof -
    have "Some (kv_id r) \<notin> set ?M"
    proof
      assume "Some (kv_id r) \<in> set ?M"
      from in_maxkv_row [OF this] that show False by (auto simp: cand_def)
    qed
    then show ?thesis by (auto simp: filter_empty_conv)
  qed
  have joined: "concat (map ?F (as_of revision tbl)) = concat (map ?F tbl)"
    unfolding as_of_def by (rule concat_map_filter_skip) (rule skip)
  show "map kv (ListRevisionStartSQL tbl pat revision del)
          = map kv (GetCurrentSQL (as_of revision tbl) pat start del)"
    unfolding ListRevisionStartSQL_def GetCurrentSQL_def listSQL_def Let_def M joined kv_sort_rows
    by (rule refl)
qed

theorem ListRevisionStartSQL_snapshot_witness:
  "list_all (\<lambda>r. sql_gt (kv_name r) (NVL [] CHR1)) (as_of 2 example_kine)
   \<and> map theid (ListRevisionStartSQL example_kine ''%'' 2 0) = [2, 1]
   \<and> map kv (ListRevisionStartSQL example_kine ''%'' 2 0)
       = map kv (GetCurrentSQL (as_of 2 example_kine) ''%'' [] 0)"
proof -
  have above: "list_all (\<lambda>r. sql_gt (kv_name r) (NVL [] CHR1)) (as_of 2 example_kine)"
    by code_simp
  then have "\<forall>r \<in> set (as_of 2 example_kine).
      sql_like (kv_name r) ''%'' \<longrightarrow> sql_gt (kv_name r) (NVL [] CHR1)"
    by (simp add: list_all_iff)
  with ListRevisionStartSQL_snapshot [of example_kine "''%''" 2 0 "[]"]
  have "map kv (ListRevisionStartSQL example_kine ''%'' 2 0)
       = map kv (GetCurrentSQL (as_of 2 example_kine) ''%'' [] 0)"
    by blast
  moreover have "map theid (ListRevisionStartSQL example_kine ''%'' 2 0) = [2, 1]"
    by code_simp
  ultimately show ?thesis using above by simp
qed

text \<open>
  The sentence of the specification fails in both respects: on a key written twice, the row returned for
  the ceiling 1 carries the current revision 2, where the table as of 1 gives 1; and a key
  named \<open>CHR(1)\<close> is returned by \<open>ListRevisionStartSQL\<close> and not by \<open>GetCurrentSQL\<close>
  with no start key.
\<close>

theorem ListRevisionStartSQL_differs_from_snapshot:
  "map kv (ListRevisionStartSQL written_twice ''a%'' 1 0) = [row 1 ''a'' 0 0]
   \<and> map current_rev (ListRevisionStartSQL written_twice ''a%'' 1 0) = [Some 2]
   \<and> map current_rev (GetCurrentSQL (as_of 1 written_twice) ''a%'' [] 0) = [Some 1]
   \<and> ListRevisionStartSQL written_twice ''a%'' 1 0
       \<noteq> GetCurrentSQL (as_of 1 written_twice) ''a%'' [] 0
   \<and> map kv (ListRevisionStartSQL lowest_name ''%'' 1 0) = [row 1 CHR1 0 0]
   \<and> GetCurrentSQL (as_of 1 lowest_name) ''%'' [] 0 = []
   \<and> ListRevisionStartSQL lowest_name ''%'' 1 0
       \<noteq> GetCurrentSQL (as_of 1 lowest_name) ''%'' [] 0"
  by code_simp

text \<open>
  C7. \<open>AfterSQL\<close> returns, each once, the rows whose name matches the pattern and whose
  id is greater than the floor \<open>revision\<close>, every version of a key included, in ascending
  order of id (strictly ascending when the ids are distinct). When it returns rows, the
  largest id returned bounds them all, and a later call with this id as its floor, on any
  table and with any pattern, returns only rows with a larger id, none of them a row
  returned before.
\<close>

theorem AfterSQL_all_rows_after:
  "mset (map kv (AfterSQL tbl pat revision))
     = mset (filter (\<lambda>r. sql_like (kv_name r) pat \<and> revision < kv_id r) tbl)
   \<and> sorted (map theid (AfterSQL tbl pat revision))
   \<and> (distinct (map kv_id tbl) \<longrightarrow> sorted_wrt (<) (map theid (AfterSQL tbl pat revision)))
   \<and> (AfterSQL tbl pat revision \<noteq> [] \<longrightarrow>
        (\<forall>l \<in> set (AfterSQL tbl pat revision).
           theid l \<le> Max (set (map theid (AfterSQL tbl pat revision))))
        \<and> (\<forall>l' \<in> set (AfterSQL tbl' pat' (Max (set (map theid (AfterSQL tbl pat revision))))).
             Max (set (map theid (AfterSQL tbl pat revision))) < theid l'
             \<and> kv l' \<notin> set (map kv (AfterSQL tbl pat revision))))"
proof -
  let ?res = "AfterSQL tbl pat revision"
  let ?P = "\<lambda>r. sql_like (kv_name r) pat \<and> revision < kv_id r"
  let ?mk = "\<lambda>r. \<lparr>current_rev = revSQL tbl, compact_rev = compactRevSQL tbl, kv = r\<rparr>"
  have res: "?res = sort_key theid (map ?mk (filter ?P tbl))"
    by (simp add: AfterSQL_def)
  have "mset (map kv ?res) = mset (map kv (map ?mk (filter ?P tbl)))"
    unfolding res by (simp only: mset_map mset_sort)
  then have m: "mset (map kv ?res) = mset (filter ?P tbl)"
    by (simp only: kv_of_rows)
  have s: "sorted (map theid ?res)"
    unfolding res by (rule sorted_sort_key)
  have st: "sorted_wrt (<) (map theid ?res)" if d: "distinct (map kv_id tbl)"
  proof -
    from d have "distinct (map kv_id (filter ?P tbl))" by (rule distinct_map_filter)
    then have "distinct (map theid ?res)"
      unfolding res by (simp add: distinct_map_sort_key comp_def theid_def)
    with s show ?thesis by (simp add: strict_sorted_iff)
  qed
  have after: "revision' < theid l'" if "l' \<in> set (AfterSQL tbl' pat' revision')"
    for l' revision'
    using that by (auto simp: AfterSQL_def theid_def)
  have le: "theid l \<le> Max (set (map theid ?res))" if "l \<in> set ?res" for l
    using that by (intro Max_ge) auto
  have fresh: "kv l' \<notin> set (map kv ?res)"
    if "l' \<in> set (AfterSQL tbl' pat' (Max (set (map theid ?res))))" for l'
  proof
    assume "kv l' \<in> set (map kv ?res)"
    then obtain l where l: "l \<in> set ?res" "kv l = kv l'" by auto
    from le [OF l(1)] l(2) have "theid l' \<le> Max (set (map theid ?res))"
      by (simp add: theid_def)
    with after [OF that] show False by simp
  qed
  from m s st le after fresh show ?thesis by blast
qed

theorem AfterSQL_all_rows_after_witness:
  "distinct (map kv_id example_kine)
   \<and> AfterSQL example_kine ''%'' 1 \<noteq> []
   \<and> map theid (AfterSQL example_kine ''%'' 1) = [2, 3, 4]
   \<and> Max (set (map theid (AfterSQL example_kine ''%'' 1))) = 4
   \<and> sorted_wrt (<) (map theid (AfterSQL example_kine ''%'' 1))
   \<and> AfterSQL example_kine ''%'' 4 = []
   \<and> map theid (AfterSQL (example_kine @ [row 5 ''c'' 0 0]) ''%'' 4) = [5]"
proof -
  have d: "distinct (map kv_id example_kine)"
    by (simp add: example_kine_def row_def)
  have ids: "map theid (AfterSQL example_kine ''%'' 1) = [2, 3, 4]"
    by code_simp
  then have ne: "AfterSQL example_kine ''%'' 1 \<noteq> []" by auto
  from AfterSQL_all_rows_after [of example_kine "''%''" 1] d
  have "sorted_wrt (<) (map theid (AfterSQL example_kine ''%'' 1))"
    by blast
  moreover have "Max (set (map theid (AfterSQL example_kine ''%'' 1))) = 4"
    unfolding ids by simp
  moreover have "AfterSQL example_kine ''%'' 4 = []"
    by code_simp
  moreover have "map theid (AfterSQL (example_kine @ [row 5 ''c'' 0 0]) ''%'' 4) = [5]"
    by code_simp
  ultimately show ?thesis using d ne ids by simp
qed

end
